theory Spec2Isabelle
  imports Main "HOL-Library.Sublist"
begin

section \<open>The temporal state hook: data model\<close>

text \<open>
  The repository is one React hook, \<^verbatim>\<open>useTemporalState\<close>, kept in two variants in
  \<^verbatim>\<open>src/index.ts\<close>: the first (lines 13-77) performs its updates inside nested
  state-updater callbacks, the second (lines 92-173) reads the rendered \<^verbatim>\<open>past\<close>,
  \<^verbatim>\<open>present\<close> and \<^verbatim>\<open>future\<close> and writes the three cells directly.

  The three \<^verbatim>\<open>useState\<close> cells are one record. Each operation is modelled as the net
  effect of one call made on a rendered (settled) state: the closure variables
  \<^verbatim>\<open>past\<close>, \<^verbatim>\<open>present\<close>, \<^verbatim>\<open>future\<close> hold the current cells, and every updater
  callback runs once, on the current cell. This is how the repository's tests drive the
  hook (one call per \<^verbatim>\<open>act\<close>).

  Several calls made before the next render share the callbacks of one render. Their
  closure variables keep the rendered values while the cells collect the updates; the
  section on calls within one render models that with the rendered store and the pending
  cells as two arguments.
\<close>

record 'a store =
  past :: "'a list"
  present :: "'a"
  future :: "'a list"

text \<open>
  \<^verbatim>\<open>interface TemporalOptions<T> { limit?: number; shouldAddToHistory?: (prev, next) => boolean }\<close>.
  Both fields are optional. The limit is a JavaScript number; it is modelled as an
  integer, of either sign.
\<close>

record 'a TemporalOptions =
  limit :: "int option"
  shouldAddToHistory :: "('a \<Rightarrow> 'a \<Rightarrow> bool) option"

text \<open>
  \<^verbatim>\<open>const { limit = 50, shouldAddToHistory = (prev, next) => prev !== next } = options;\<close>
\<close>

definition limit_of :: "'a TemporalOptions \<Rightarrow> int" where
  "limit_of options = (case limit options of None \<Rightarrow> 50 | Some l \<Rightarrow> l)"

definition shouldAdd_of :: "'a TemporalOptions \<Rightarrow> 'a \<Rightarrow> 'a \<Rightarrow> bool" where
  "shouldAdd_of options =
     (case shouldAddToHistory options of None \<Rightarrow> (\<lambda>prev next. prev \<noteq> next) | Some f \<Rightarrow> f)"

text \<open>
  The argument of \<^verbatim>\<open>set\<close> is \<^verbatim>\<open>T | ((prev: T) => T)\<close>, told apart by
  \<^verbatim>\<open>typeof newState === "function"\<close>.
\<close>

datatype 'a newState = Value 'a | Updater "'a \<Rightarrow> 'a"

fun resolve :: "'a newState \<Rightarrow> 'a \<Rightarrow> 'a" where
  "resolve (Updater f) prev = f prev"
| "resolve (Value v) prev = v"

text \<open>
  \<^verbatim>\<open>Array.prototype.slice(start, end)\<close>: a negative index counts from the end and is
  clamped at 0, a non-negative one is clamped at the length; an absent \<^verbatim>\<open>end\<close> is the
  length. In particular \<^verbatim>\<open>slice(-0)\<close> is \<^verbatim>\<open>slice(0)\<close>, the whole array.
\<close>

definition js_slice :: "'a list \<Rightarrow> int \<Rightarrow> int option \<Rightarrow> 'a list" where
  "js_slice xs start stop =
     (let len = int (length xs);
          k = (if start < 0 then max (len + start) 0 else min start len);
          final = (case stop of
                     None \<Rightarrow> len
                   | Some e \<Rightarrow> (if e < 0 then max (len + e) 0 else min e len))
      in take (nat (max (final - k) 0)) (drop (nat k) xs))"

text \<open>
  \<^verbatim>\<open>useState<T[]>([])\<close>, \<^verbatim>\<open>useState<T>(initialValue)\<close>, \<^verbatim>\<open>useState<T[]>([])\<close>: the cells
  of a freshly mounted hook, the same in both variants.
\<close>

definition useTemporalState :: "'a \<Rightarrow> 'a store" where
  "useTemporalState initialValue = \<lparr>past = [], present = initialValue, future = []\<rparr>"

text \<open>The derived reads of the returned object.\<close>

definition state :: "'a store \<Rightarrow> 'a" where
  "state s = present s"

definition canUndo :: "'a store \<Rightarrow> bool" where
  "canUndo s = (length (past s) > 0)"

definition canRedo :: "'a store \<Rightarrow> bool" where
  "canRedo s = (length (future s) > 0)"

section \<open>First variant (lines 13-77)\<close>

text \<open>
  \<^verbatim>\<open>set\<close>: the updater of \<^verbatim>\<open>setPresent\<close> returns \<^verbatim>\<open>prevPresent\<close> when the predicate
  rejects the change, and otherwise pushes onto \<^verbatim>\<open>past\<close>, empties \<^verbatim>\<open>future\<close> and returns
  \<^verbatim>\<open>next\<close>.
\<close>

definition set1 :: "'a TemporalOptions \<Rightarrow> 'a newState \<Rightarrow> 'a store \<Rightarrow> 'a store" where
  "set1 options newState s =
     (let prevPresent = present s;
          next = resolve newState prevPresent
      in if \<not> shouldAdd_of options prevPresent next then s\<lparr>present := prevPresent\<rparr>
         else
           \<lparr>past =
              (let updated = past s @ [prevPresent]
               in if int (length updated) > limit_of options
                  then js_slice updated (- limit_of options) None
                  else updated),
            present = next,
            future = []\<rparr>)"

definition undo1 :: "'a store \<Rightarrow> 'a store" where
  "undo1 s =
     (let prevPast = past s
      in if length prevPast = 0 then s\<lparr>past := prevPast\<rparr>
         else
           (let newPast = js_slice prevPast 0 (Some (- 1));
                lastState = prevPast ! (length prevPast - 1)
            in \<lparr>past = newPast, present = lastState, future = present s # future s\<rparr>))"

definition redo1 :: "'a TemporalOptions \<Rightarrow> 'a store \<Rightarrow> 'a store" where
  "redo1 options s =
     (let prevFuture = future s
      in if length prevFuture = 0 then s\<lparr>future := prevFuture\<rparr>
         else
           (let nextState = hd prevFuture;
                restFuture = tl prevFuture
            in \<lparr>past =
                  (let updated = past s @ [present s]
                   in if int (length updated) > limit_of options
                      then js_slice updated (- limit_of options) None
                      else updated),
                present = nextState,
                future = restFuture\<rparr>))"

section \<open>Second variant (lines 92-173)\<close>

definition set2 :: "'a TemporalOptions \<Rightarrow> 'a newState \<Rightarrow> 'a store \<Rightarrow> 'a store" where
  "set2 options newState s =
     (let next = resolve newState (present s)
      in if \<not> shouldAdd_of options (present s) next then s\<lparr>present := next\<rparr>
         else
           (let newPast = past s @ [present s];
                trimmedPast =
                  (if int (length newPast) > limit_of options
                   then js_slice newPast (- limit_of options) None
                   else newPast)
            in \<lparr>past = trimmedPast, present = next, future = []\<rparr>))"

definition undo2 :: "'a store \<Rightarrow> 'a store" where
  "undo2 s =
     (if length (past s) = 0 then s
      else
        (let newPast = js_slice (past s) 0 (Some (- 1));
             lastState = past s ! (length (past s) - 1)
         in \<lparr>past = newPast, present = lastState, future = present s # future s\<rparr>))"

definition redo2 :: "'a TemporalOptions \<Rightarrow> 'a store \<Rightarrow> 'a store" where
  "redo2 options s =
     (if length (future s) = 0 then s
      else
        (let nextState = hd (future s);
             restFuture = tl (future s);
             newPast = past s @ [present s];
             trimmedPast =
               (if int (length newPast) > limit_of options
                then js_slice newPast (- limit_of options) None
                else newPast)
         in \<lparr>past = trimmedPast, present = nextState, future = restFuture\<rparr>))"

section \<open>Sequences of operations\<close>

datatype 'a action = Set "'a newState" | Undo | Redo

fun apply1 :: "'a TemporalOptions \<Rightarrow> 'a store \<Rightarrow> 'a action \<Rightarrow> 'a store" where
  "apply1 options s (Set newState) = set1 options newState s"
| "apply1 options s Undo = undo1 s"
| "apply1 options s Redo = redo1 options s"

fun apply2 :: "'a TemporalOptions \<Rightarrow> 'a store \<Rightarrow> 'a action \<Rightarrow> 'a store" where
  "apply2 options s (Set newState) = set2 options newState s"
| "apply2 options s Undo = undo2 s"
| "apply2 options s Redo = redo2 options s"

definition run1 :: "'a TemporalOptions \<Rightarrow> 'a action list \<Rightarrow> 'a store \<Rightarrow> 'a store" where
  "run1 options acts s = foldl (apply1 options) s acts"

definition run2 :: "'a TemporalOptions \<Rightarrow> 'a action list \<Rightarrow> 'a store \<Rightarrow> 'a store" where
  "run2 options acts s = foldl (apply2 options) s acts"

text \<open>
  The values a sequence of plain \<^verbatim>\<open>set(v)\<close> calls passes, as actions.
\<close>

definition set_values :: "'a list \<Rightarrow> 'a action list" where
  "set_values vs = map (\<lambda>v. Set (Value v)) vs"

text \<open>
  The timeline of a store: everything it holds, oldest first, with the present between
  the past and the future.
\<close>

definition timeline :: "'a store \<Rightarrow> 'a list" where
  "timeline s = past s @ [present s] @ future s"

section \<open>Calls within one render\<close>

text \<open>
  The callbacks of a render close over the rendered \<^verbatim>\<open>past\<close>, \<^verbatim>\<open>present\<close> and
  \<^verbatim>\<open>future\<close> (the dependency arrays of \<^verbatim>\<open>useCallback\<close> renew them only at a render).
  A call \<^verbatim>\<open>setX(value)\<close> replaces the pending value of the cell and a call
  \<^verbatim>\<open>setX(fn)\<close> applies \<^verbatim>\<open>fn\<close> to it; the updates of one cell take effect in the order
  of the calls. The functions below take the rendered store \<open>r\<close>, which the closure
  variables read, and the pending cells \<open>c\<close>, which the updater arguments read, and
  return the pending cells after the call. For the first call after a render both are
  the rendered store.

  First variant. \<^verbatim>\<open>set\<close> reads no closure variable of the store: its updater takes
  \<^verbatim>\<open>prevPresent\<close> and \<^verbatim>\<open>prev\<close> as arguments, so it is \<open>set1\<close> on the pending cells.
  \<^verbatim>\<open>undo\<close> takes \<^verbatim>\<open>prevPast\<close> and \<^verbatim>\<open>f\<close> as updater arguments and reads \<^verbatim>\<open>present\<close> from
  its closure (line 50); \<^verbatim>\<open>redo\<close> takes \<^verbatim>\<open>prevFuture\<close> and \<^verbatim>\<open>p\<close> as updater arguments
  and reads \<^verbatim>\<open>present\<close> from its closure (line 61).
\<close>

definition undo1c :: "'a store \<Rightarrow> 'a store \<Rightarrow> 'a store" where
  "undo1c r c =
     (let prevPast = past c
      in if length prevPast = 0 then c\<lparr>past := prevPast\<rparr>
         else
           (let newPast = js_slice prevPast 0 (Some (- 1));
                lastState = prevPast ! (length prevPast - 1)
            in \<lparr>past = newPast, present = lastState, future = present r # future c\<rparr>))"

definition redo1c :: "'a TemporalOptions \<Rightarrow> 'a store \<Rightarrow> 'a store \<Rightarrow> 'a store" where
  "redo1c options r c =
     (let prevFuture = future c
      in if length prevFuture = 0 then c\<lparr>future := prevFuture\<rparr>
         else
           (let nextState = hd prevFuture;
                restFuture = tl prevFuture
            in \<lparr>past =
                  (let updated = past c @ [present r]
                   in if int (length updated) > limit_of options
                      then js_slice updated (- limit_of options) None
                      else updated),
                present = nextState,
                future = restFuture\<rparr>))"

text \<open>
  Second variant. \<^verbatim>\<open>set\<close>, \<^verbatim>\<open>undo\<close> and \<^verbatim>\<open>redo\<close> read \<^verbatim>\<open>past\<close>, \<^verbatim>\<open>present\<close> and
  \<^verbatim>\<open>future\<close> from their closures and write the cells with plain values; the one updater
  is \<^verbatim>\<open>setFuture((f) => [present, ...f])\<close> in \<^verbatim>\<open>undo\<close> (line 145).
\<close>

definition set2c :: "'a TemporalOptions \<Rightarrow> 'a newState \<Rightarrow> 'a store \<Rightarrow> 'a store \<Rightarrow> 'a store" where
  "set2c options newState r c =
     (let next = resolve newState (present r)
      in if \<not> shouldAdd_of options (present r) next then c\<lparr>present := next\<rparr>
         else
           (let newPast = past r @ [present r];
                trimmedPast =
                  (if int (length newPast) > limit_of options
                   then js_slice newPast (- limit_of options) None
                   else newPast)
            in \<lparr>past = trimmedPast, present = next, future = []\<rparr>))"

definition undo2c :: "'a store \<Rightarrow> 'a store \<Rightarrow> 'a store" where
  "undo2c r c =
     (if length (past r) = 0 then c
      else
        (let newPast = js_slice (past r) 0 (Some (- 1));
             lastState = past r ! (length (past r) - 1)
         in \<lparr>past = newPast, present = lastState, future = present r # future c\<rparr>))"

definition redo2c :: "'a TemporalOptions \<Rightarrow> 'a store \<Rightarrow> 'a store \<Rightarrow> 'a store" where
  "redo2c options r c =
     (if length (future r) = 0 then c
      else
        (let nextState = hd (future r);
             restFuture = tl (future r);
             newPast = past r @ [present r];
             trimmedPast =
               (if int (length newPast) > limit_of options
                then js_slice newPast (- limit_of options) None
                else newPast)
         in \<lparr>past = trimmedPast, present = nextState, future = restFuture\<rparr>))"

text \<open>
  The calls of the second variant made between two renders, in order: every call reads
  the same rendered store, and the cells they leave are the next rendered store.
\<close>

fun apply2c :: "'a TemporalOptions \<Rightarrow> 'a store \<Rightarrow> 'a store \<Rightarrow> 'a action \<Rightarrow> 'a store" where
  "apply2c options r c (Set newState) = set2c options newState r c"
| "apply2c options r c Undo = undo2c r c"
| "apply2c options r c Redo = redo2c options r c"

definition batch2 :: "'a TemporalOptions \<Rightarrow> 'a action list \<Rightarrow> 'a store \<Rightarrow> 'a store" where
  "batch2 options acts r = foldl (apply2c options r) r acts"

lemmas hook_defs =
  set1_def set2_def undo1_def undo2_def redo1_def redo2_def js_slice_def limit_of_def
  shouldAdd_of_def useTemporalState_def run1_def run2_def canUndo_def canRedo_def
  state_def timeline_def set_values_def Let_def

lemmas batch_defs =
  undo1c_def redo1c_def set2c_def undo2c_def redo2c_def batch2_def

section \<open>Array slicing\<close>

lemma js_slice_drop_last: "js_slice xs 0 (Some (- 1)) = butlast xs"
  by (cases "length xs \<le> 1") (auto simp add: js_slice_def Let_def butlast_conv_take nat_diff_distrib')

lemma js_slice_tail:
  "0 < l \<Longrightarrow> js_slice xs (- l) None = drop (length xs - nat l) xs"
  by (auto simp add: js_slice_def Let_def max_def nat_diff_distrib' )

lemma js_slice_minus_zero: "js_slice xs (- 0) None = xs"
  by (simp add: js_slice_def)

lemma js_slice_negative_limit:
  "l < 0 \<Longrightarrow> js_slice xs (- l) None = drop (nat (- l)) xs"
  by (auto simp add: js_slice_def Let_def min_def)

lemma push_trim:
  "0 < l \<Longrightarrow>
   (if int (length xs) > l then js_slice xs (- l) None else xs) = drop (length xs - nat l) xs"
  by (auto simp add: js_slice_tail)

lemma trim_amount:
  "0 < (l::nat) \<Longrightarrow> Suc (n - (n - l)) - l + (n - l) = Suc n - l"
  by (cases "l \<le> n") simp_all

lemma drop_butlast_last:
  assumes "j < length xs"
  shows "drop j (butlast xs) @ [last xs] = drop j xs"
proof -
  have ne: "xs \<noteq> []" using assms by auto
  have "drop j (butlast xs @ [last xs]) = drop j (butlast xs) @ [last xs]"
    using assms by (simp del: append_butlast_last_id)
  then show ?thesis using ne by simp
qed

lemma nth_next_drop:
  "k < length p \<Longrightarrow> (p @ [c]) ! (length p - k) # drop (Suc (length p - k)) (p @ [c])
              = drop (Suc (length p - Suc k)) (p @ [c])"
  by (simp add: Cons_nth_drop_Suc Suc_diff_Suc del: drop_append)

lemma last_take_nth:
  "k < length p \<Longrightarrow> last (take (length p - k) p) = (p @ [c]) ! (length p - Suc k)"
proof -
  assume k: "k < length p"
  then have "take (length p - k) p \<noteq> []" by (cases p) auto
  then show ?thesis using k by (simp add: last_conv_nth nth_append)
qed

lemma nth_drop_window:
  "k \<le> min n l \<Longrightarrow> n < length xs \<Longrightarrow> drop (n - l) xs ! (min n l - k) = xs ! (n - k)" for k n l :: nat
proof -
  assume a: "k \<le> min n l" and b: "n < length xs"
  have e: "n - l + (min n l - k) = n - k" using a by (cases "l \<le> n") simp_all
  have "n - l \<le> length xs" using b by simp
  then have "drop (n - l) xs ! (min n l - k) = xs ! (n - l + (min n l - k))"
    by (rule nth_drop)
  then show ?thesis by (simp only: e)
qed

section \<open>The operations as list functions\<close>

text \<open>
  The two variants share \<^verbatim>\<open>undo\<close> and \<^verbatim>\<open>redo\<close>, and \<^verbatim>\<open>set\<close> whenever the change is
  recorded. With a positive limit the trimming keeps the last \<open>limit\<close> entries.
\<close>

lemma undo1_undo2: "undo1 s = undo2 s"
  by (simp add: undo1_def undo2_def Let_def)

lemma redo1_redo2: "redo1 options s = redo2 options s"
  by (simp add: redo1_def redo2_def Let_def)

lemma set1_set2_recorded:
  "shouldAdd_of options (present s) (resolve newState (present s)) \<Longrightarrow>
   set1 options newState s = set2 options newState s"
  by (simp add: set1_def set2_def Let_def)

lemma set2_recorded:
  "0 < limit_of options \<Longrightarrow> shouldAdd_of options (present s) (resolve newState (present s)) \<Longrightarrow>
   set2 options newState s =
     \<lparr>past = drop (Suc (length (past s)) - nat (limit_of options)) (past s @ [present s]),
      present = resolve newState (present s), future = []\<rparr>"
  by (simp add: set2_def Let_def js_slice_tail)

lemma set2_unrecorded:
  "\<not> shouldAdd_of options (present s) (resolve newState (present s)) \<Longrightarrow>
   set2 options newState s = s\<lparr>present := resolve newState (present s)\<rparr>"
  by (simp add: set2_def Let_def)

lemma set1_unrecorded:
  "\<not> shouldAdd_of options (present s) (resolve newState (present s)) \<Longrightarrow>
   set1 options newState s = s"
  by (simp add: set1_def Let_def)

lemma undo2_nonempty:
  "past s \<noteq> [] \<Longrightarrow>
   undo2 s = \<lparr>past = butlast (past s), present = last (past s), future = present s # future s\<rparr>"
  by (simp add: undo2_def Let_def js_slice_drop_last last_conv_nth)

lemma undo2_empty: "past s = [] \<Longrightarrow> undo2 s = s"
  by (simp add: undo2_def)

lemma redo2_empty: "future s = [] \<Longrightarrow> redo2 options s = s"
  by (simp add: redo2_def)

lemma redo2_nonempty:
  "0 < limit_of options \<Longrightarrow> future s = x # rest \<Longrightarrow>
   redo2 options s =
     \<lparr>past = drop (Suc (length (past s)) - nat (limit_of options)) (past s @ [present s]),
      present = x, future = rest\<rparr>"
  by (simp add: redo2_def Let_def js_slice_tail)

lemma undo1_eq_undo2: "undo1 = undo2"
  by (rule ext) (rule undo1_undo2)

lemma set2_limit_zero:
  "limit_of options = 0 \<Longrightarrow> shouldAdd_of options (present s) (resolve newState (present s)) \<Longrightarrow>
   past (set2 options newState s) = past s @ [present s]"
  by (simp add: set2_def Let_def js_slice_def)

section \<open>Sequences of operations: the bound on the past\<close>

lemma apply_preserves_bound:
  assumes "0 < limit_of options" "length (past s) \<le> nat (limit_of options)"
  shows "length (past (apply2 options s a)) \<le> nat (limit_of options)"
proof (cases a)
  case (Set u)
  then show ?thesis using assms
    by (cases "shouldAdd_of options (present s) (resolve u (present s))")
       (auto simp add: set2_recorded set2_unrecorded)
next
  case Undo
  then show ?thesis using assms
    by (cases "past s = []") (simp_all add: undo2_empty undo2_nonempty)
next
  case Redo
  then show ?thesis using assms
    by (cases "future s") (auto simp add: redo2_empty redo2_nonempty)
qed

lemma apply1_preserves_bound:
  assumes "0 < limit_of options" "length (past s) \<le> nat (limit_of options)"
  shows "length (past (apply1 options s a)) \<le> nat (limit_of options)"
proof (cases a)
  case (Set u)
  then show ?thesis using assms
    by (cases "shouldAdd_of options (present s) (resolve u (present s))")
       (auto simp add: set1_set2_recorded set2_recorded set1_unrecorded)
next
  case Undo
  then show ?thesis using apply_preserves_bound [OF assms, of Undo]
    by (simp add: undo1_undo2)
next
  case Redo
  then show ?thesis using apply_preserves_bound [OF assms, of Redo]
    by (simp add: redo1_redo2)
qed

lemma run2_bound:
  "0 < limit_of options \<Longrightarrow> length (past s) \<le> nat (limit_of options) \<Longrightarrow>
   length (past (run2 options acts s)) \<le> nat (limit_of options)"
  unfolding run2_def
  by (induction acts arbitrary: s) (simp_all add: apply_preserves_bound)

lemma run1_bound:
  "0 < limit_of options \<Longrightarrow> length (past s) \<le> nat (limit_of options) \<Longrightarrow>
   length (past (run1 options acts s)) \<le> nat (limit_of options)"
  unfolding run1_def
  by (induction acts arbitrary: s) (simp_all add: apply1_preserves_bound)

lemma run2_snoc: "run2 options (acts @ [a]) s = apply2 options (run2 options acts s) a"
  by (simp add: run2_def)

lemma run1_snoc: "run1 options (acts @ [a]) s = apply1 options (run1 options acts s) a"
  by (simp add: run1_def)

lemma set_values_snoc: "set_values (vs @ [x]) = set_values vs @ [Set (Value x)]"
  by (simp add: set_values_def)

lemma set2_after_sets:
  assumes "0 < limit_of options" and "shouldAdd_of options (last (v # vs)) x"
  shows "set2 options (Value x)
           \<lparr>past = drop (length vs - nat (limit_of options)) (butlast (v # vs)),
            present = last (v # vs), future = []\<rparr>
         = \<lparr>past = drop (Suc (length vs) - nat (limit_of options)) (v # vs),
            present = x, future = []\<rparr>"
proof -
  let ?l = "nat (limit_of options)"
  have l: "0 < ?l" using assms(1) by simp
  have glue: "drop (length vs - ?l) (butlast (v # vs)) @ [last (v # vs)]
                = drop (length vs - ?l) (v # vs)"
    by (rule drop_butlast_last) simp
  have len: "length (drop (length vs - ?l) (butlast (v # vs))) = length vs - (length vs - ?l)"
    by simp
  show ?thesis
    apply (subst set2_recorded)
      apply (rule assms(1))
     apply (simp only: store.simps resolve.simps assms(2))
    apply (simp only: store.simps resolve.simps glue len drop_drop trim_amount [OF l])
    done
qed

lemma run2_set_values:
  assumes "0 < limit_of options" and "\<forall>p n. shouldAdd_of options p n"
  shows "run2 options (set_values vs) (useTemporalState v) =
           \<lparr>past = drop (length vs - nat (limit_of options)) (butlast (v # vs)),
            present = last (v # vs), future = []\<rparr>"
proof (induction vs rule: rev_induct)
  case Nil
  then show ?case by (simp add: set_values_def run2_def useTemporalState_def)
next
  case (snoc x vs)
  have sa: "shouldAdd_of options (last (v # vs)) x" using assms(2) by blast
  have b: "butlast (v # vs @ [x]) = v # vs"
    using butlast_snoc [of "v # vs" x] by simp
  have c: "last (v # vs @ [x]) = x"
    using last_snoc [of "v # vs" x] by simp
  have "run2 options (set_values (vs @ [x])) (useTemporalState v)
          = set2 options (Value x) (run2 options (set_values vs) (useTemporalState v))"
    by (simp only: set_values_snoc run2_snoc apply2.simps)
  also have "\<dots> = \<lparr>past = drop (Suc (length vs) - nat (limit_of options)) (v # vs),
                     present = x, future = []\<rparr>"
    by (simp only: snoc.IH set2_after_sets [OF assms(1) sa])
  finally show ?case by (simp only: b c length_append_singleton)
qed

lemma run1_set_values:
  assumes "\<forall>p n. shouldAdd_of options p n"
  shows "run1 options (set_values vs) s = run2 options (set_values vs) s"
proof (induction vs rule: rev_induct)
  case Nil
  then show ?case by (simp add: set_values_def run1_def run2_def)
next
  case (snoc x vs)
  have "set1 options (Value x) (run2 options (set_values vs) s)
          = set2 options (Value x) (run2 options (set_values vs) s)"
    using assms by (simp add: set1_set2_recorded)
  then show ?case
    by (simp only: set_values_snoc run1_snoc run2_snoc snoc.IH apply1.simps apply2.simps)
qed

lemma undo2_funpow:
  "k \<le> length (past s) \<Longrightarrow>
   (undo2 ^^ k) s =
     \<lparr>past = take (length (past s) - k) (past s),
      present = (past s @ [present s]) ! (length (past s) - k),
      future = drop (Suc (length (past s) - k)) (past s @ [present s]) @ future s\<rparr>"
proof (induction k)
  case 0
  then show ?case by simp
next
  case (Suc k)
  let ?n = "length (past s)"
  let ?t = "past s @ [present s]"
  have k: "k < ?n" using Suc.prems by simp
  have ih: "(undo2 ^^ k) s =
     \<lparr>past = take (?n - k) (past s), present = ?t ! (?n - k),
      future = drop (Suc (?n - k)) ?t @ future s\<rparr>"
    using Suc.IH k by simp
  have ne: "take (?n - k) (past s) \<noteq> []" using k by (cases "past s") auto
  have bl: "butlast (take (?n - k) (past s)) = take (?n - Suc k) (past s)"
    by (simp add: butlast_take)
  have la: "last (take (?n - k) (past s)) = ?t ! (?n - Suc k)"
    using k by (rule last_take_nth)
  have fu: "?t ! (?n - k) # drop (Suc (?n - k)) ?t = drop (Suc (?n - Suc k)) ?t"
    using k by (rule nth_next_drop)
  have "undo2 ((undo2 ^^ k) s) =
      \<lparr>past = butlast (take (?n - k) (past s)), present = last (take (?n - k) (past s)),
       future = ?t ! (?n - k) # drop (Suc (?n - k)) ?t @ future s\<rparr>"
    unfolding ih using ne by (subst undo2_nonempty) simp_all
  also have "\<dots> = \<lparr>past = take (?n - Suc k) (past s), present = ?t ! (?n - Suc k),
      future = drop (Suc (?n - Suc k)) ?t @ future s\<rparr>"
    unfolding bl la using fu by (simp only: append_Cons [symmetric])
  finally show ?case by (simp only: funpow.simps o_apply)
qed

section \<open>One call per render and several calls per render\<close>

text \<open>
  On a rendered store the closure variables and the cells coincide, and the functions
  with two stores are the functions with one.
\<close>

lemma undo1c_rendered: "undo1c s s = undo1 s"
  by (simp add: undo1c_def undo1_def)

lemma redo1c_rendered: "redo1c options s s = redo1 options s"
  by (simp add: redo1c_def redo1_def)

lemma set2c_rendered: "set2c options newState s s = set2 options newState s"
  by (simp add: set2c_def set2_def)

lemma undo2c_rendered: "undo2c s s = undo2 s"
  by (simp add: undo2c_def undo2_def)

lemma redo2c_rendered: "redo2c options s s = redo2 options s"
  by (simp add: redo2c_def redo2_def)

lemma batch2_single: "batch2 options [a] s = apply2 options s a"
  by (cases a) (simp_all add: batch2_def set2c_rendered undo2c_rendered redo2c_rendered)

text \<open>
  When every call is made on a rendered store (a render between any two calls) and the
  limit is positive, \<^verbatim>\<open>set(x); undo()\<close> restores the present and leaves \<open>[x]\<close> as the
  future, and \<^verbatim>\<open>redo()\<close> brings \<open>x\<close> back.
\<close>

lemma round_trip_one_call_per_render:
  assumes "0 < limit_of options" and "shouldAdd_of options (present s) x"
  shows "present (undo1 (set1 options (Value x) s)) = present s \<and>
         future (undo1 (set1 options (Value x) s)) = [x] \<and>
         present (redo1 options (undo1 (set1 options (Value x) s))) = x \<and>
         present (undo2 (set2 options (Value x) s)) = present s \<and>
         future (undo2 (set2 options (Value x) s)) = [x] \<and>
         present (redo2 options (undo2 (set2 options (Value x) s))) = x"
proof -
  let ?s1 = "set2 options (Value x) s"
  have p1: "past ?s1 \<noteq> []" and l1: "last (past ?s1) = present s"
    and c1: "present ?s1 = x" and f1: "future ?s1 = []"
    using assms by (simp_all add: set2_recorded)
  have u: "undo2 ?s1 = \<lparr>past = butlast (past ?s1), present = present s, future = [x]\<rparr>"
    using p1 l1 c1 f1 by (simp add: undo2_nonempty)
  have r: "present (redo2 options (undo2 ?s1)) = x"
    using assms(1) by (simp add: u redo2_nonempty)
  have e: "set1 options (Value x) s = ?s1"
    using assms(2) by (simp add: set1_set2_recorded)
  show ?thesis
    using r by (simp add: e undo1_undo2 redo1_redo2 u)
qed


text \<open>
  When every call is made on a rendered store, \<open>n \<ge> 1\<close> recorded \<^verbatim>\<open>set\<close> calls on a
  fresh store leave \<open>min n limit\<close> entries that successive \<^verbatim>\<open>undo\<close> calls restore in
  turn.
\<close>

lemma undo_recovers_one_call_per_render:
  assumes "0 < limit_of options" and "\<forall>p n. shouldAdd_of options p n" and "vs \<noteq> []"
  shows "(let s1 = run1 options (set_values vs) (useTemporalState v);
              s2 = run2 options (set_values vs) (useTemporalState v);
              m = min (length vs) (nat (limit_of options))
          in canUndo s1 \<and> canUndo s2 \<and>
             (\<forall>k<m. canUndo ((undo1 ^^ k) s1) \<and> canUndo ((undo2 ^^ k) s2)) \<and>
             (\<forall>k\<le>m. state ((undo1 ^^ k) s1) = (v # vs) ! (length vs - k) \<and>
                     state ((undo2 ^^ k) s2) = (v # vs) ! (length vs - k)) \<and>
             \<not> canUndo ((undo1 ^^ m) s1) \<and> \<not> canUndo ((undo2 ^^ m) s2) \<and>
             undo1 ((undo1 ^^ m) s1) = (undo1 ^^ m) s1 \<and>
             undo2 ((undo2 ^^ m) s2) = (undo2 ^^ m) s2)"
proof -
  let ?l = "nat (limit_of options)"
  let ?n = "length vs"
  let ?m = "min ?n ?l"
  let ?s = "run2 options (set_values vs) (useTemporalState v)"
  have l: "0 < ?l" using assms(1) by simp
  have n: "0 < ?n" using assms(3) by simp
  have s: "?s = \<lparr>past = drop (?n - ?l) (butlast (v # vs)), present = last (v # vs), future = []\<rparr>"
    using assms(1,2) by (rule run2_set_values)
  have len: "length (past ?s) = ?m"
    unfolding s by (cases "?l \<le> ?n") simp_all
  have line: "past ?s @ [present ?s] = drop (?n - ?l) (v # vs)"
    unfolding s store.simps by (rule drop_butlast_last) simp
  have pw: "past ((undo2 ^^ k) ?s) = take (?m - k) (past ?s) \<and>
            present ((undo2 ^^ k) ?s) = (v # vs) ! (?n - k)" if "k \<le> ?m" for k
  proof -
    have w: "drop (?n - ?l) (v # vs) ! (?m - k) = (v # vs) ! (?n - k)"
      using that by (rule nth_drop_window) simp
    have "k \<le> length (past ?s)" using that by (simp only: len)
    then show ?thesis
      by (simp only: undo2_funpow store.simps len line w)
  qed
  have m: "0 < ?m" using l n by simp
  have c0: "canUndo ?s" unfolding canUndo_def len using m .
  have ck: "canUndo ((undo2 ^^ k) ?s)" if "k < ?m" for k
  proof -
    have "k \<le> ?m" using that by simp
    then have "past ((undo2 ^^ k) ?s) = take (?m - k) (past ?s)"
      using pw [of k] by (simp only:)
    then have "length (past ((undo2 ^^ k) ?s)) = min (length (past ?s)) (?m - k)"
      by (simp only: length_take)
    moreover have "min ?m (?m - k) = ?m - k" by (rule min.absorb2) (rule diff_le_self)
    moreover have "0 < ?m - k" using that by (rule zero_less_diff [THEN iffD2])
    ultimately show ?thesis unfolding canUndo_def len by (simp only:)
  qed
  have vk: "state ((undo2 ^^ k) ?s) = (v # vs) ! (?n - k)" if "k \<le> ?m" for k
    using pw [OF that] by (simp only: state_def)
  have em: "past ((undo2 ^^ ?m) ?s) = []"
    using pw [of ?m] by simp
  have nm: "\<not> canUndo ((undo2 ^^ ?m) ?s)" unfolding canUndo_def em by simp
  have fx: "undo2 ((undo2 ^^ ?m) ?s) = (undo2 ^^ ?m) ?s" using em by (rule undo2_empty)
  have r: "run1 options (set_values vs) (useTemporalState v) = ?s"
    using assms(2) by (rule run1_set_values)
  show ?thesis
    unfolding Let_def r undo1_eq_undo2
    using c0 ck vk nm fx by blast
qed


text \<open>
  A recorded \<^verbatim>\<open>set\<close> of the second variant writes cells that depend on the rendered store
  alone, so of several such calls made before the next render only the last one shows,
  and the past gains a single entry.
\<close>

lemma set2c_recorded:
  "shouldAdd_of options (present r) (resolve newState (present r)) \<Longrightarrow>
   set2c options newState r c = set2 options newState r"
  by (simp add: set2c_def set2_def)

lemma batch2_set_values:
  assumes "\<forall>p n. shouldAdd_of options p n"
  shows "batch2 options (set_values (vs @ [x])) r = set2 options (Value x) r"
proof -
  have "batch2 options (set_values (vs @ [x])) r
          = set2c options (Value x) r (foldl (apply2c options r) r (set_values vs))"
    by (simp add: batch2_def set_values_def)
  also have "\<dots> = set2 options (Value x) r"
    using assms by (simp add: set2c_recorded)
  finally show ?thesis .
qed

section \<open>The claims\<close>

text \<open>
  C1. When \<^verbatim>\<open>shouldAddToHistory(present, candidate)\<close> is false, \<^verbatim>\<open>set\<close> is to replace the
  present by the candidate and leave past and future alone. The second variant does so
  (\<open>set2_unrecorded\<close>); the first variant returns \<^verbatim>\<open>prevPresent\<close> from its updater and
  so leaves the whole store as it was (\<open>set1_unrecorded\<close>). On the input of the
  repository's test "should not add state to history if shouldAddToHistory returns false"
  (initial value 0, a predicate that is always false, \<^verbatim>\<open>set(1)\<close>), which expects the state
  1, the first variant yields the state 0 and the second the state 1.
\<close>

theorem set1_discards_unrecorded_update:
  "state (set1 \<lparr>limit = None, shouldAddToHistory = Some (\<lambda>prev next. False)\<rparr>
            (Value 1) (useTemporalState (0::int))) = 0 \<and>
   state (set2 \<lparr>limit = None, shouldAddToHistory = Some (\<lambda>prev next. False)\<rparr>
            (Value 1) (useTemporalState (0::int))) = 1"
  by (simp add: hook_defs)

text \<open>
  C2. The two variants are to compute the same transition. They agree on \<^verbatim>\<open>undo\<close>
  (\<open>undo1_undo2\<close>), on \<^verbatim>\<open>redo\<close> (\<open>redo1_redo2\<close>) and on every recorded \<^verbatim>\<open>set\<close>
  (\<open>set1_set2_recorded\<close>), and differ on a \<^verbatim>\<open>set\<close> that the predicate rejects: with the
  predicate \<^verbatim>\<open>(prev, next) => prev < next\<close>, the store past = [1], present = 5,
  future = [7] and \<^verbatim>\<open>set(3)\<close>, the first variant keeps the present 5 and the second makes
  it 3.
\<close>

theorem variants_disagree_on_unrecorded_set:
  "set1 \<lparr>limit = Some 50, shouldAddToHistory = Some (\<lambda>prev next. prev < next)\<rparr>
        (Value 3) \<lparr>past = [1], present = 5::int, future = [7]\<rparr>
     = \<lparr>past = [1], present = 5, future = [7]\<rparr> \<and>
   set2 \<lparr>limit = Some 50, shouldAddToHistory = Some (\<lambda>prev next. prev < next)\<rparr>
        (Value 3) \<lparr>past = [1], present = 5::int, future = [7]\<rparr>
     = \<lparr>past = [1], present = 3, future = [7]\<rparr> \<and>
   set1 \<lparr>limit = Some 50, shouldAddToHistory = Some (\<lambda>prev next. prev < next)\<rparr>
        (Value 3) \<lparr>past = [1], present = 5::int, future = [7]\<rparr>
     \<noteq> set2 \<lparr>limit = Some 50, shouldAddToHistory = Some (\<lambda>prev next. prev < next)\<rparr>
          (Value 3) \<lparr>past = [1], present = 5::int, future = [7]\<rparr>"
  by (simp add: hook_defs)

text \<open>
  C3. For a positive limit and every sequence of \<^verbatim>\<open>set\<close>, \<^verbatim>\<open>undo\<close> and \<^verbatim>\<open>redo\<close> calls
  on a freshly constructed store, in either variant, the past never holds more than
  \<open>limit\<close> entries (the sequence is arbitrary, so the bound holds after each of its
  operations). Each push, by a recorded \<^verbatim>\<open>set\<close> or by a \<^verbatim>\<open>redo\<close> with a non-empty
  future, leaves as the new past the suffix of the old past followed by the old present,
  of length the smaller of \<open>|past| + 1\<close> and \<open>limit\<close>: what is evicted is taken from the
  front, the oldest entries.
\<close>

theorem past_never_exceeds_limit:
  assumes "0 < limit_of options"
  shows "length (past (run1 options acts (useTemporalState v))) \<le> nat (limit_of options) \<and>
         length (past (run2 options acts (useTemporalState v))) \<le> nat (limit_of options) \<and>
         (shouldAdd_of options (present s) (resolve u (present s)) \<longrightarrow>
            suffix (past (set1 options u s)) (past s @ [present s]) \<and>
            length (past (set1 options u s)) = min (Suc (length (past s))) (nat (limit_of options)) \<and>
            suffix (past (set2 options u s)) (past s @ [present s]) \<and>
            length (past (set2 options u s)) = min (Suc (length (past s))) (nat (limit_of options))) \<and>
         (future s \<noteq> [] \<longrightarrow>
            suffix (past (redo1 options s)) (past s @ [present s]) \<and>
            length (past (redo1 options s)) = min (Suc (length (past s))) (nat (limit_of options)) \<and>
            suffix (past (redo2 options s)) (past s @ [present s]) \<and>
            length (past (redo2 options s)) = min (Suc (length (past s))) (nat (limit_of options)))"
proof -
  have fresh: "length (past (useTemporalState v)) \<le> nat (limit_of options)"
    by (simp add: useTemporalState_def)
  have b1: "length (past (run1 options acts (useTemporalState v))) \<le> nat (limit_of options)"
    using assms fresh by (rule run1_bound)
  have b2: "length (past (run2 options acts (useTemporalState v))) \<le> nat (limit_of options)"
    using assms fresh by (rule run2_bound)
  have st: "suffix (past (set2 options u s)) (past s @ [present s]) \<and>
            length (past (set2 options u s)) = min (Suc (length (past s))) (nat (limit_of options))"
    if "shouldAdd_of options (present s) (resolve u (present s))"
    using assms that by (auto simp add: set2_recorded suffix_drop)
  have rd: "suffix (past (redo2 options s)) (past s @ [present s]) \<and>
            length (past (redo2 options s)) = min (Suc (length (past s))) (nat (limit_of options))"
    if "future s \<noteq> []"
    using assms that by (cases "future s") (auto simp add: redo2_nonempty suffix_drop)
  show ?thesis
    using b1 b2 st rd by (simp add: set1_set2_recorded redo1_redo2)
qed

theorem past_never_exceeds_limit_witness:
  "0 < limit_of (\<lparr>limit = Some 3, shouldAddToHistory = None\<rparr> :: int TemporalOptions) \<and>
   length (past (run1 \<lparr>limit = Some 3, shouldAddToHistory = None\<rparr>
             [Set (Value 1), Set (Value 2), Set (Value 3), Set (Value 4), Undo, Redo]
             (useTemporalState (0::int)))) \<le> 3 \<and>
   length (past (run2 \<lparr>limit = Some 3, shouldAddToHistory = None\<rparr>
             [Set (Value 1), Set (Value 2), Set (Value 3), Set (Value 4), Undo, Redo]
             (useTemporalState (0::int)))) \<le> 3 \<and>
   shouldAdd_of \<lparr>limit = Some 3, shouldAddToHistory = None\<rparr> (3::int) 4 \<and>
   past (set1 \<lparr>limit = Some 3, shouldAddToHistory = None\<rparr> (Value 4)
           \<lparr>past = [0, 1, 2], present = 3::int, future = [9]\<rparr>) = [1, 2, 3] \<and>
   past (set2 \<lparr>limit = Some 3, shouldAddToHistory = None\<rparr> (Value 4)
           \<lparr>past = [0, 1, 2], present = 3::int, future = [9]\<rparr>) = [1, 2, 3] \<and>
   past (redo1 \<lparr>limit = Some 3, shouldAddToHistory = None\<rparr>
           \<lparr>past = [0, 1, 2], present = 3::int, future = [9]\<rparr>) = [1, 2, 3] \<and>
   past (redo2 \<lparr>limit = Some 3, shouldAddToHistory = None\<rparr>
           \<lparr>past = [0, 1, 2], present = 3::int, future = [9]\<rparr>) = [1, 2, 3]"
  using past_never_exceeds_limit
    [of "\<lparr>limit = Some 3, shouldAddToHistory = None\<rparr>"
        "[Set (Value 1), Set (Value 2), Set (Value 3), Set (Value 4), Undo, Redo]" "0::int"
        "\<lparr>past = [0, 1, 2], present = 3::int, future = [9]\<rparr>" "Value 4"]
  by (simp add: hook_defs)

text \<open>
  C4. A \<^verbatim>\<open>set\<close> call for which \<^verbatim>\<open>shouldAddToHistory(present, candidate)\<close> is true leaves
  the future empty, in either variant; so after \<^verbatim>\<open>set(a); undo(); set(b)\<close>, with a
  predicate that accepts both \<^verbatim>\<open>set\<close> calls, \<^verbatim>\<open>canRedo\<close> is false.
\<close>

theorem recorded_set_clears_future:
  "(shouldAdd_of options (present s) (resolve u (present s)) \<longrightarrow>
      future (set1 options u s) = [] \<and> future (set2 options u s) = []) \<and>
   (shouldAdd_of options (present s) a \<and>
    shouldAdd_of options (present (undo1 (set1 options (Value a) s))) b \<longrightarrow>
      \<not> canRedo (set1 options (Value b) (undo1 (set1 options (Value a) s)))) \<and>
   (shouldAdd_of options (present s) a \<and>
    shouldAdd_of options (present (undo2 (set2 options (Value a) s))) b \<longrightarrow>
      \<not> canRedo (set2 options (Value b) (undo2 (set2 options (Value a) s))))"
  by (simp add: set1_def set2_def Let_def canRedo_def)

theorem recorded_set_clears_future_witness:
  "shouldAdd_of \<lparr>limit = None, shouldAddToHistory = None\<rparr> (0::int) 1 \<and>
   shouldAdd_of \<lparr>limit = None, shouldAddToHistory = None\<rparr>
     (present (undo1 (set1 \<lparr>limit = None, shouldAddToHistory = None\<rparr> (Value 1)
        \<lparr>past = [], present = 0::int, future = [8]\<rparr>))) 2 \<and>
   shouldAdd_of \<lparr>limit = None, shouldAddToHistory = None\<rparr>
     (present (undo2 (set2 \<lparr>limit = None, shouldAddToHistory = None\<rparr> (Value 1)
        \<lparr>past = [], present = 0::int, future = [8]\<rparr>))) 2 \<and>
   future (set1 \<lparr>limit = None, shouldAddToHistory = None\<rparr> (Value 1)
        \<lparr>past = [], present = 0::int, future = [8]\<rparr>) = [] \<and>
   future (set2 \<lparr>limit = None, shouldAddToHistory = None\<rparr> (Value 1)
        \<lparr>past = [], present = 0::int, future = [8]\<rparr>) = [] \<and>
   canRedo (undo1 (set1 \<lparr>limit = None, shouldAddToHistory = None\<rparr> (Value 1)
        \<lparr>past = [], present = 0::int, future = [8]\<rparr>)) \<and>
   \<not> canRedo (set1 \<lparr>limit = None, shouldAddToHistory = None\<rparr> (Value 2)
        (undo1 (set1 \<lparr>limit = None, shouldAddToHistory = None\<rparr> (Value 1)
           \<lparr>past = [], present = 0::int, future = [8]\<rparr>))) \<and>
   \<not> canRedo (set2 \<lparr>limit = None, shouldAddToHistory = None\<rparr> (Value 2)
        (undo2 (set2 \<lparr>limit = None, shouldAddToHistory = None\<rparr> (Value 1)
           \<lparr>past = [], present = 0::int, future = [8]\<rparr>)))"
  using recorded_set_clears_future
    [of "\<lparr>limit = None, shouldAddToHistory = None\<rparr>"
        "\<lparr>past = [], present = 0::int, future = [8]\<rparr>" "Value 1" 1 2]
  by (simp add: hook_defs)

text \<open>
  C5. After \<^verbatim>\<open>set(x); undo()\<close> the present is to be the one before the \<^verbatim>\<open>set\<close>, with
  \<open>x\<close> at the front of the future, and \<^verbatim>\<open>redo()\<close> is to restore \<open>x\<close>. With a render
  between the calls the code does so (\<open>round_trip_one_call_per_render\<close>). When
  \<^verbatim>\<open>set(1)\<close> and \<^verbatim>\<open>undo()\<close> are called one after the other before the next render, on a
  fresh store with initial value 0 and the default options, \<^verbatim>\<open>undo\<close> works with the
  \<^verbatim>\<open>present\<close> of its closure, which is still 0. The first variant puts 0, not 1, into
  the future, and the \<^verbatim>\<open>redo()\<close> of the next render restores 0. The second variant also
  tests the \<^verbatim>\<open>past\<close> of its closure, which is still empty, and returns at once: the
  present stays 1 and nothing can be redone.
\<close>

theorem batched_set_undo_breaks_round_trip:
  "undo1c (useTemporalState (0::int))
     (set1 \<lparr>limit = None, shouldAddToHistory = None\<rparr> (Value 1) (useTemporalState 0))
     = \<lparr>past = [], present = 0, future = [0]\<rparr> \<and>
   present (redo1 \<lparr>limit = None, shouldAddToHistory = None\<rparr>
     (undo1c (useTemporalState (0::int))
        (set1 \<lparr>limit = None, shouldAddToHistory = None\<rparr> (Value 1) (useTemporalState 0))))
     = 0 \<and>
   batch2 \<lparr>limit = None, shouldAddToHistory = None\<rparr> [Set (Value 1), Undo]
     (useTemporalState (0::int))
     = \<lparr>past = [0], present = 1, future = []\<rparr>"
  by (simp add: hook_defs batch_defs)

text \<open>
  C6. After \<open>n\<close> recorded \<^verbatim>\<open>set\<close> calls \<open>min n limit\<close> prior values are to be
  recoverable by \<^verbatim>\<open>undo\<close>. With a render between the calls the code does so
  (\<open>undo_recovers_one_call_per_render\<close>). When the calls are made one after the other
  before the next render, the \<^verbatim>\<open>set\<close> of the second variant builds the new past from the
  \<^verbatim>\<open>past\<close> and \<^verbatim>\<open>present\<close> of its closure each time (\<open>batch2_set_values\<close>): on a fresh
  store with initial value 0, the default limit 50 and a predicate that is always true,
  \<^verbatim>\<open>set(1); set(2)\<close> leaves the past [0] and the present 2, one \<^verbatim>\<open>undo\<close> restores 0 and
  the next finds nothing, so one value is recoverable where \<open>min 2 50 = 2\<close> are
  expected, and the value 1 is lost. The \<^verbatim>\<open>set\<close> of the first variant reads both from
  its updater arguments instead (lines 25 and 33).
\<close>

theorem batched_sets_record_one_entry:
  "batch2 \<lparr>limit = None, shouldAddToHistory = Some (\<lambda>prev next. True)\<rparr>
     [Set (Value 1), Set (Value 2)] (useTemporalState (0::int))
     = \<lparr>past = [0], present = 2, future = []\<rparr> \<and>
   undo2 (batch2 \<lparr>limit = None, shouldAddToHistory = Some (\<lambda>prev next. True)\<rparr>
     [Set (Value 1), Set (Value 2)] (useTemporalState (0::int)))
     = \<lparr>past = [], present = 0, future = [2]\<rparr> \<and>
   \<not> canUndo (undo2 (batch2 \<lparr>limit = None, shouldAddToHistory = Some (\<lambda>prev next. True)\<rparr>
     [Set (Value 1), Set (Value 2)] (useTemporalState (0::int))))"
  by (simp add: hook_defs batch_defs)

text \<open>
  C7. With limit 0 every recorded \<^verbatim>\<open>set\<close> is to evict the entry it has just pushed, so
  that the past stays empty and \<^verbatim>\<open>canUndo\<close> false. The code enters its trimming branch
  (\<^verbatim>\<open>updated.length > 0\<close>) and evaluates \<^verbatim>\<open>updated.slice(-0)\<close>, which is the whole array
  (\<open>js_slice_minus_zero\<close>), so nothing is ever evicted (\<open>set2_limit_zero\<close>): from the
  initial value 0 with the default predicate, \<^verbatim>\<open>set(1)\<close> gives \<^verbatim>\<open>canUndo = true\<close>, and
  \<^verbatim>\<open>set(1); set(2)\<close> gives the past [0, 1], in both variants.
\<close>

theorem limit_zero_keeps_every_entry:
  "past (run1 \<lparr>limit = Some 0, shouldAddToHistory = None\<rparr>
           [Set (Value 1), Set (Value 2)] (useTemporalState (0::int))) = [0, 1] \<and>
   canUndo (set1 \<lparr>limit = Some 0, shouldAddToHistory = None\<rparr>
              (Value 1) (useTemporalState (0::int))) \<and>
   past (run2 \<lparr>limit = Some 0, shouldAddToHistory = None\<rparr>
           [Set (Value 1), Set (Value 2)] (useTemporalState (0::int))) = [0, 1] \<and>
   canUndo (set2 \<lparr>limit = Some 0, shouldAddToHistory = None\<rparr>
              (Value 1) (useTemporalState (0::int)))"
  by (simp add: hook_defs)







end
